theory Spec2Isabelle
  imports Main "HOL-Library.Word" "HOL-Library.Sublist"
begin

section \<open>The message container of relayer/relayMsgs.go\<close>

text \<open>
  Go's \<open>uint64\<close> is a 64-bit word: addition wraps, comparison is unsigned. Go's
  \<open>int\<close> (the batch counters) is a 64-bit word read as two's complement. A value
  of the interface \<open>provider.RelayerMessage\<close> is \<open>None\<close> for nil and \<open>Some m\<close>
  otherwise. A value of Go's \<open>error\<close> interface is the list of the errors it
  holds: \<open>[]\<close> is nil, \<open>[e]\<close> a plain error, a longer list a multi-error.
  Writing to the zap logger, which is all that \<open>logFailedTx\<close> does, changes nothing
  that Send or its caller reads and is left out.
\<close>

type_synonym byte = "8 word"
type_synonym uint64 = "64 word"
type_synonym goint = "64 word"

record 'm RelayMsgs =
  Src :: "'m option list"
  Dst :: "'m option list"
  MaxTxSize :: uint64
  MaxMsgLength :: uint64

definition NewRelayMsgs :: "'m RelayMsgs" where
  "NewRelayMsgs = \<lparr>Src = [], Dst = [], MaxTxSize = 0, MaxMsgLength = 0\<rparr>"

datatype 'x panic = NilDereference | Raised 'x

text \<open>
  \<open>r.f\<close> through a pointer \<open>r\<close>: the Go runtime panics when \<open>r\<close> is nil.
\<close>

definition field :: "'a option \<Rightarrow> ('a \<Rightarrow> 'b) \<Rightarrow> 'x panic + 'b" where
  "field r f = (case r of None \<Rightarrow> Inl NilDereference | Some v \<Rightarrow> Inr (f v))"

text \<open>
  \<open>Ready\<close> has a pointer receiver, which may be nil. The conjunction
  \<open>len(r.Src) == 0 && len(r.Dst) == 0\<close> reads \<open>r.Dst\<close> only when the first
  test holds.
\<close>

definition Ready :: "'m RelayMsgs option \<Rightarrow> 'x panic + bool" where
  "Ready r =
     (if r = None then Inr False
      else case field r Src of
             Inl p \<Rightarrow> Inl p
           | Inr s \<Rightarrow>
               if length s = 0
               then (case field r Dst of
                       Inl p \<Rightarrow> Inl p
                     | Inr d \<Rightarrow> if length d = 0 then Inr False else Inr True)
               else Inr True)"

text \<open>
  \<open>IsMaxTx\<close> and \<open>Send\<close> read the fields of their receiver without a nil test;
  they are modelled on a container that is there.
\<close>

definition IsMaxTx :: "'m RelayMsgs \<Rightarrow> uint64 \<Rightarrow> uint64 \<Rightarrow> bool" where
  "IsMaxTx r msgLen txSize \<longleftrightarrow>
     (MaxMsgLength r \<noteq> 0 \<and> msgLen > MaxMsgLength r) \<or>
     (MaxTxSize r \<noteq> 0 \<and> txSize > MaxTxSize r)"

subsection \<open>DecodeMsgs\<close>

text \<open>
  The chain's \<open>Encoding.Amino.UnmarshalJSON\<close> is a parameter: applied to a blob it
  gives either an error or the message it stored in \<open>sm\<close>. The loop appends to
  \<open>outMsgs\<close> in the order of the input.
\<close>

fun DecodeLoop :: "(string \<Rightarrow> 'x + 'm option) \<Rightarrow> string list \<Rightarrow> 'm option list \<Rightarrow> 'm option list" where
  "DecodeLoop UnmarshalJSON [] outMsgs = outMsgs"
| "DecodeLoop UnmarshalJSON (msg # rest) outMsgs =
     (case UnmarshalJSON msg of
        Inl err \<Rightarrow> DecodeLoop UnmarshalJSON rest outMsgs
      | Inr sm \<Rightarrow> DecodeLoop UnmarshalJSON rest (outMsgs @ [sm]))"

definition DecodeMsgs :: "(string \<Rightarrow> 'x + 'm option) \<Rightarrow> string list \<Rightarrow> 'm option list" where
  "DecodeMsgs UnmarshalJSON msgs = DecodeLoop UnmarshalJSON msgs []"

text \<open>The parsed value of a blob, if it parses.\<close>

definition parsed :: "(string \<Rightarrow> 'x + 'm option) \<Rightarrow> string \<Rightarrow> 'm option option" where
  "parsed UnmarshalJSON msg = (case UnmarshalJSON msg of Inl err \<Rightarrow> None | Inr sm \<Rightarrow> Some sm)"

subsection \<open>Senders and results\<close>

text \<open>
  \<open>SendMessages\<close> is a Go closure over a chain client: it takes the context and a
  batch, and its answer (response or nil, success, error) may depend on the state of the
  chain it talks to, which it may change. That state is threaded through explicitly. The
  two senders of a Send talk to two chains, each with a state of its own.
\<close>

record ('c, 'm, 'r, 'e, 's) RelayMsgSender =
  ChainID :: string
  SendMessages :: "'c \<Rightarrow> 'm list \<Rightarrow> 's \<Rightarrow> ('r option \<times> bool \<times> 'e list) \<times> 's"

record 'e SendMsgsResult =
  SuccessfulSrcBatches :: goint
  SuccessfulDstBatches :: goint
  SrcSendError :: "'e list"
  DstSendError :: "'e list"

definition PartiallySent :: "'e SendMsgsResult \<Rightarrow> bool" where
  "PartiallySent r \<longleftrightarrow>
     (0 <s SuccessfulSrcBatches r \<or> 0 <s SuccessfulDstBatches r) \<and>
     (SrcSendError r \<noteq> [] \<or> DstSendError r \<noteq> [])"

text \<open>
  Modelled from the spec: \<open>multierr.Append\<close> and \<open>multierr.AppendInto\<close> of
  go.uber.org/multierr are not part of the source. The spec describes an ordered
  multi-error composition in which later errors are appended and none replaces an earlier
  one; on the lists of held errors that is concatenation, with nil on either side giving
  the other side back.
\<close>

definition multierr_Append :: "'e list \<Rightarrow> 'e list \<Rightarrow> 'e list" where
  "multierr_Append left right =
     (if left = [] then right else if right = [] then left else left @ right)"

definition Error :: "'e SendMsgsResult \<Rightarrow> 'e list" where
  "Error r = multierr_Append (SrcSendError r) (DstSendError r)"

subsection \<open>Send\<close>

text \<open>
  What Send does to the outside is the calls it makes to the two senders. The world
  holds the state of the two chains and, as a record of those calls, the trace: one
  event for each call of \<open>SendMessages\<close>, in the order the calls are made, with the
  sender called, the batch passed and the answer returned.
\<close>

datatype target = ToSrc | ToDst

type_synonym ('m, 'r, 'e) event = "target \<times> 'm list \<times> ('r option \<times> bool \<times> 'e list)"

record ('m, 'r, 'e, 's, 't) world =
  trace :: "('m, 'r, 'e) event list"
  srcChain :: 's
  dstChain :: 't

definition startWorld :: "'s \<Rightarrow> 't \<Rightarrow> ('m, 'r, 'e, 's, 't) world" where
  "startWorld s t = \<lparr>trace = [], srcChain = s, dstChain = t\<rparr>"

definition target_of :: "('m, 'r, 'e) event \<Rightarrow> target" where
  "target_of ev = fst ev"

definition batch_of :: "('m, 'r, 'e) event \<Rightarrow> 'm list" where
  "batch_of ev = fst (snd ev)"

definition success_of :: "('m, 'r, 'e) event \<Rightarrow> bool" where
  "success_of ev = fst (snd (snd (snd ev)))"

definition error_of :: "('m, 'r, 'e) event \<Rightarrow> 'e list" where
  "error_of ev = snd (snd (snd (snd ev)))"

definition callsTo :: "target \<Rightarrow> ('m, 'r, 'e) event list \<Rightarrow> ('m, 'r, 'e) event list" where
  "callsTo t tr = filter (\<lambda>ev. target_of ev = t) tr"

text \<open>
  One submission to the source chain, as lines 174 to 181 and 193 to 200 have it: call
  the sender, append a non-nil error to \<open>SrcSendError\<close>, count a success.
\<close>

definition sendSrc ::
  "('c, 'm, 'r, 'e, 's) RelayMsgSender \<Rightarrow> 'c \<Rightarrow> 'm list \<Rightarrow>
   ('m, 'r, 'e, 's, 't) world \<times> 'e SendMsgsResult \<Rightarrow> ('m, 'r, 'e, 's, 't) world \<times> 'e SendMsgsResult" where
  "sendSrc src ctx msgs st =
     (case st of (w, result) \<Rightarrow>
      case SendMessages src ctx msgs (srcChain w) of ((resp, success, err), s') \<Rightarrow>
        let w = w\<lparr>trace := trace w @ [(ToSrc, msgs, (resp, success, err))], srcChain := s'\<rparr>;
            result = (if err \<noteq> []
                      then result\<lparr>SrcSendError := multierr_Append (SrcSendError result) err\<rparr>
                      else result);
            result = (if success
                      then result\<lparr>SuccessfulSrcBatches := SuccessfulSrcBatches result + 1\<rparr>
                      else result)
        in (w, result))"

text \<open>The same for the destination chain (lines 222 to 229 and 242 to 249).\<close>

definition sendDst ::
  "('c, 'm, 'r, 'e, 't) RelayMsgSender \<Rightarrow> 'c \<Rightarrow> 'm list \<Rightarrow>
   ('m, 'r, 'e, 's, 't) world \<times> 'e SendMsgsResult \<Rightarrow> ('m, 'r, 'e, 's, 't) world \<times> 'e SendMsgsResult" where
  "sendDst dst ctx msgs st =
     (case st of (w, result) \<Rightarrow>
      case SendMessages dst ctx msgs (dstChain w) of ((resp, success, err), t') \<Rightarrow>
        let w = w\<lparr>trace := trace w @ [(ToDst, msgs, (resp, success, err))], dstChain := t'\<rparr>;
            result = (if err \<noteq> []
                      then result\<lparr>DstSendError := multierr_Append (DstSendError result) err\<rparr>
                      else result);
            result = (if success
                      then result\<lparr>SuccessfulDstBatches := SuccessfulDstBatches result + 1\<rparr>
                      else result)
        in (w, result))"

text \<open>
  The two \<open>for\<close> loops of Send (lines 162 to 189 and 209 to 238) are the same code
  but for the submission they make; \<open>sendLoop\<close> is that loop, with the submission as
  the parameter \<open>submit\<close>. The loop variables are \<open>msgLen\<close>, \<open>txSize\<close> and
  \<open>msgs\<close>; \<open>st\<close> is the world with the result so far. \<open>MsgBytes\<close> is the method
  of the message interface, a parameter. When it fails the loop panics with the error:
  the world stays as it is at that moment and the result is lost.
\<close>

fun sendLoop ::
  "('m \<Rightarrow> 'x + byte list) \<Rightarrow> 'm RelayMsgs \<Rightarrow> ('m list \<Rightarrow> 'a \<Rightarrow> 'a) \<Rightarrow> 'm option list \<Rightarrow>
   uint64 \<times> uint64 \<times> 'm list \<Rightarrow> 'a \<Rightarrow> 'a \<times> ('x panic + uint64 \<times> uint64 \<times> 'm list)" where
  "sendLoop MsgBytes r submit [] (msgLen, txSize, msgs) st = (st, Inr (msgLen, txSize, msgs))"
| "sendLoop MsgBytes r submit (None # rest) (msgLen, txSize, msgs) st =
     sendLoop MsgBytes r submit rest (msgLen, txSize, msgs) st"
| "sendLoop MsgBytes r submit (Some msg # rest) (msgLen, txSize, msgs) st =
     (case MsgBytes msg of
        Inl err \<Rightarrow> (st, Inl (Raised err))
      | Inr bz \<Rightarrow>
          let msgLen = msgLen + 1;
              txSize = txSize + of_nat (length bz)
          in if IsMaxTx r msgLen txSize
             then sendLoop MsgBytes r submit rest (1, of_nat (length bz), [] @ [msg]) (submit msgs st)
             else sendLoop MsgBytes r submit rest (msgLen, txSize, msgs @ [msg]) st)"

text \<open>The zero value of the result, from \<open>var result SendMsgsResult\<close>.\<close>

definition zeroResult :: "'e SendMsgsResult" where
  "zeroResult = \<lparr>SuccessfulSrcBatches = 0, SuccessfulDstBatches = 0,
                  SrcSendError = [], DstSendError = []\<rparr>"

text \<open>
  Send: the loop over \<open>Src\<close>, the leftover source batch, the loop variables reset,
  the loop over \<open>Dst\<close>, the leftover destination batch. It returns the world it
  leaves behind and either the panic or the result.
\<close>

definition Send ::
  "('m \<Rightarrow> 'x + byte list) \<Rightarrow> 'm RelayMsgs \<Rightarrow> 'c \<Rightarrow>
   ('c, 'm, 'r, 'e, 's) RelayMsgSender \<Rightarrow> ('c, 'm, 'r, 'e, 't) RelayMsgSender \<Rightarrow>
   ('m, 'r, 'e, 's, 't) world \<Rightarrow> ('m, 'r, 'e, 's, 't) world \<times> ('x panic + 'e SendMsgsResult)" where
  "Send MsgBytes r ctx src dst w =
     (let result = zeroResult
      in case sendLoop MsgBytes r (sendSrc src ctx) (Src r) (0, 0, []) (w, result) of
           (st, Inl p) \<Rightarrow> (fst st, Inl p)
         | (st, Inr (msgLen, txSize, msgs)) \<Rightarrow>
             let st = (if length msgs > 0 then sendSrc src ctx msgs st else st)
             in (case sendLoop MsgBytes r (sendDst dst ctx) (Dst r) (0, 0, []) st of
                   (st, Inl p) \<Rightarrow> (fst st, Inl p)
                 | (st, Inr (msgLen, txSize, msgs)) \<Rightarrow>
                     let st = (if length msgs > 0 then sendDst dst ctx msgs st else st)
                     in (fst st, Inr (snd st))))"

text \<open>The non-nil messages of a sequence, in order.\<close>

fun nonNil :: "'m option list \<Rightarrow> 'm list" where
  "nonNil [] = []"
| "nonNil (None # rest) = nonNil rest"
| "nonNil (Some m # rest) = m # nonNil rest"

text \<open>
  The batches the loop hands to \<open>submit\<close>, in order, and how the loop ends: a function
  of the messages and the limits alone.
\<close>

fun flushed ::
  "('m \<Rightarrow> 'x + byte list) \<Rightarrow> 'm RelayMsgs \<Rightarrow> 'm option list \<Rightarrow>
   uint64 \<times> uint64 \<times> 'm list \<Rightarrow> 'm list list \<times> ('x panic + uint64 \<times> uint64 \<times> 'm list)" where
  "flushed MsgBytes r [] (msgLen, txSize, msgs) = ([], Inr (msgLen, txSize, msgs))"
| "flushed MsgBytes r (None # rest) (msgLen, txSize, msgs) =
     flushed MsgBytes r rest (msgLen, txSize, msgs)"
| "flushed MsgBytes r (Some msg # rest) (msgLen, txSize, msgs) =
     (case MsgBytes msg of
        Inl err \<Rightarrow> ([], Inl (Raised err))
      | Inr bz \<Rightarrow>
          if IsMaxTx r (msgLen + 1) (txSize + of_nat (length bz))
          then (case flushed MsgBytes r rest (1, of_nat (length bz), [msg]) of
                  (bs, fin) \<Rightarrow> (msgs # bs, fin))
          else flushed MsgBytes r rest (msgLen + 1, txSize + of_nat (length bz), msgs @ [msg]))"

text \<open>Submitting a list of batches one after the other.\<close>

definition submitAll :: "('m list \<Rightarrow> 'a \<Rightarrow> 'a) \<Rightarrow> 'm list list \<Rightarrow> 'a \<Rightarrow> 'a" where
  "submitAll submit bs st = foldl (\<lambda>st b. submit b st) st bs"

text \<open>
  All the batches one loop and its leftover submission hand over, and the panic that cut
  the loop short, if one did.
\<close>

definition batchesOf ::
  "('m \<Rightarrow> 'x + byte list) \<Rightarrow> 'm RelayMsgs \<Rightarrow> 'm option list \<Rightarrow> 'm list list \<times> 'x panic option" where
  "batchesOf MsgBytes r xs =
     (case flushed MsgBytes r xs (0, 0, []) of
        (bs, Inl p) \<Rightarrow> (bs, Some p)
      | (bs, Inr (msgLen, txSize, msgs)) \<Rightarrow> (if length msgs > 0 then bs @ [msgs] else bs, None))"

text \<open>Every non-nil message of the sequence serialises.\<close>

definition allOK :: "('m \<Rightarrow> 'x + byte list) \<Rightarrow> 'm option list \<Rightarrow> bool" where
  "allOK MsgBytes xs =
     list_all (\<lambda>m. case MsgBytes m of Inl err \<Rightarrow> False | Inr bz \<Rightarrow> True) (nonNil xs)"

text \<open>A call without its answer: the sender and the batch.\<close>

definition call_of :: "('m, 'r, 'e) event \<Rightarrow> target \<times> 'm list" where
  "call_of ev = (target_of ev, batch_of ev)"

text \<open>
  What a state of Send holds for the destination side: the calls made to the destination
  sender with their answers, the state of the destination chain, and the two destination
  fields of the result.
\<close>

definition dstPart ::
  "('m, 'r, 'e, 's, 't) world \<times> 'e SendMsgsResult \<Rightarrow> ('m, 'r, 'e) event list \<times> 't \<times> goint \<times> 'e list" where
  "dstPart st = (callsTo ToDst (trace (fst st)), dstChain (fst st),
                 SuccessfulDstBatches (snd st), DstSendError (snd st))"

text \<open>
  The result accounts for the trace: each accumulated error is the errors answered by
  that sender, in the order of the calls, and each counter is the number of calls that
  sender answered with success.
\<close>

definition accounted :: "('m, 'r, 'e, 's, 't) world \<times> 'e SendMsgsResult \<Rightarrow> bool" where
  "accounted st \<longleftrightarrow>
     SrcSendError (snd st) = concat (map error_of (callsTo ToSrc (trace (fst st)))) \<and>
     SuccessfulSrcBatches (snd st) = of_nat (length (filter success_of (callsTo ToSrc (trace (fst st))))) \<and>
     DstSendError (snd st) = concat (map error_of (callsTo ToDst (trace (fst st)))) \<and>
     SuccessfulDstBatches (snd st) = of_nat (length (filter success_of (callsTo ToDst (trace (fst st)))))"

text \<open>
  The calls Send makes, sender and batch, in order: the source batches, and after them
  the destination batches unless the source loop panicked.
\<close>

definition plan :: "('m \<Rightarrow> 'x + byte list) \<Rightarrow> 'm RelayMsgs \<Rightarrow> (target \<times> 'm list) list" where
  "plan MsgBytes r =
     (case batchesOf MsgBytes r (Src r) of
        (bs, Some p) \<Rightarrow> map (Pair ToSrc) bs
      | (bs, None) \<Rightarrow> map (Pair ToSrc) bs @ map (Pair ToDst) (fst (batchesOf MsgBytes r (Dst r))))"

text \<open>The panic that ends Send, if one does: the source loop's, else the destination loop's.\<close>

definition fate :: "('m \<Rightarrow> 'x + byte list) \<Rightarrow> 'm RelayMsgs \<Rightarrow> 'x panic option" where
  "fate MsgBytes r =
     (case snd (batchesOf MsgBytes r (Src r)) of
        Some p \<Rightarrow> Some p
      | None \<Rightarrow> snd (batchesOf MsgBytes r (Dst r)))"

definition panic_of :: "'w \<times> ('x panic + 'a) \<Rightarrow> 'x panic option" where
  "panic_of out = (case snd out of Inl p \<Rightarrow> Some p | Inr res \<Rightarrow> None)"

text \<open>
  What a run of Send leaves on the destination side: the calls made to the destination
  sender with their answers, the state of the destination chain, and either the panic or
  the two destination fields of the result.
\<close>

definition dstSide ::
  "('m, 'r, 'e, 's, 't) world \<times> ('x panic + 'e SendMsgsResult) \<Rightarrow>
   ('m, 'r, 'e) event list \<times> 't \<times> ('x panic + goint \<times> 'e list)" where
  "dstSide out = (callsTo ToDst (trace (fst out)), dstChain (fst out),
                  map_sum id (\<lambda>res. (SuccessfulDstBatches res, DstSendError res)) (snd out))"

text \<open>No call follows a call whose answer reports cancellation.\<close>

fun noCallAfter :: "(('m, 'r, 'e) event \<Rightarrow> bool) \<Rightarrow> ('m, 'r, 'e) event list \<Rightarrow> bool" where
  "noCallAfter cancelled [] = True"
| "noCallAfter cancelled (ev # rest) = (if cancelled ev then rest = [] else noCallAfter cancelled rest)"

text \<open>
  Going through a trace again from the chain states \<open>s\<close> and \<open>t\<close>: every answer
  in it must be the answer the sender called gives, for the context \<open>ctx\<close> and the
  batch of the event, in the state its chain is in by then. The value is the pair of chain states
  after the last call, or \<open>None\<close> when an answer is not the one the sender gives.
\<close>

fun replay ::
  "'c \<Rightarrow> ('c, 'm, 'r, 'e, 's) RelayMsgSender \<Rightarrow> ('c, 'm, 'r, 'e, 't) RelayMsgSender \<Rightarrow>
   ('m, 'r, 'e) event list \<Rightarrow> 's \<times> 't \<Rightarrow> ('s \<times> 't) option" where
  "replay ctx src dst [] (s, t) = Some (s, t)"
| "replay ctx src dst ((ToSrc, b, out) # rest) (s, t) =
     (case SendMessages src ctx b s of
        (answer, s') \<Rightarrow> if out = answer then replay ctx src dst rest (s', t) else None)"
| "replay ctx src dst ((ToDst, b, out) # rest) (s, t) =
     (case SendMessages dst ctx b t of
        (answer, t') \<Rightarrow> if out = answer then replay ctx src dst rest (s, t') else None)"

text \<open>The trace of a state of Send is one that \<open>replay\<close> goes through, up to its chain states.\<close>

definition replayed ::
  "'c \<Rightarrow> ('c, 'm, 'r, 'e, 's) RelayMsgSender \<Rightarrow> ('c, 'm, 'r, 'e, 't) RelayMsgSender \<Rightarrow> 's \<Rightarrow> 't \<Rightarrow>
   ('m, 'r, 'e, 's, 't) world \<times> 'e SendMsgsResult \<Rightarrow> bool" where
  "replayed ctx src dst s t st \<longleftrightarrow>
     replay ctx src dst (trace (fst st)) (s, t) = Some (srcChain (fst st), dstChain (fst st))"

text \<open>The answer of a call is the error of a cancelled context.\<close>

definition reportsCancel :: "('m, 'r, string) event \<Rightarrow> bool" where
  "reportsCancel ev \<longleftrightarrow> error_of ev = [''context canceled'']"

subsection \<open>Concrete messages, senders and containers\<close>

text \<open>
  A message is a number \<open>m\<close> that serialises to \<open>m\<close> zero bytes; the message
  \<open>0\<close> does not serialise. The context is a flag that says whether it is cancelled.
  \<open>exSender\<close> honours the context: when it is cancelled it answers with the
  cancellation error at once; otherwise its second call times out and every other call
  succeeds. \<open>exDown\<close> refuses every call.
\<close>

definition exBytes :: "nat \<Rightarrow> string + byte list" where
  "exBytes m = (if m = 0 then Inl ''malformed'' else Inr (replicate m 0))"

definition exSender :: "(bool, nat, unit, string, nat) RelayMsgSender" where
  "exSender = \<lparr>ChainID = ''chain'',
     SendMessages = (\<lambda>cancelled msgs n.
       if cancelled then ((None, False, [''context canceled'']), n)
       else if n = 1 then ((None, False, [''timeout'']), Suc n)
       else ((Some (), True, []), Suc n))\<rparr>"

definition exDown :: "(bool, nat, unit, string, unit) RelayMsgSender" where
  "exDown = \<lparr>ChainID = ''down'',
     SendMessages = (\<lambda>cancelled msgs u. ((None, False, [''connection refused'']), u))\<rparr>"

definition exA :: "nat RelayMsgs" where
  "exA = \<lparr>Src = [Some 10, None, Some 10, Some 10], Dst = [Some 3], MaxTxSize = 25, MaxMsgLength = 0\<rparr>"

definition exB :: "nat RelayMsgs" where
  "exB = \<lparr>Src = [Some 1, Some 2], Dst = [Some 3], MaxTxSize = 0, MaxMsgLength = 1\<rparr>"

definition exC :: "nat RelayMsgs" where
  "exC = \<lparr>Src = [Some 2, Some 3, Some 0, Some 4], Dst = [Some 5], MaxTxSize = 0, MaxMsgLength = 1\<rparr>"

definition exE :: "nat RelayMsgs" where
  "exE = \<lparr>Src = [Some 1], Dst = [Some 2, Some 3, Some 0, Some 4], MaxTxSize = 0, MaxMsgLength = 1\<rparr>"

section \<open>Properties of the container and the result\<close>

lemma DecodeLoop_map_filter:
  "DecodeLoop u msgs out = out @ List.map_filter (parsed u) msgs"
  by (induction msgs arbitrary: out)
     (simp_all add: List.map_filter_def parsed_def split: sum.splits)

text \<open>
  Claim C4. \<open>PartiallySent\<close> holds exactly when one of the two counts of successful
  batches is positive and one of the two accumulated errors is not nil. So it is false
  when both errors are nil, whatever the counts, and false when both counts are zero,
  whatever the errors.
\<close>

theorem PartiallySent_iff:
  "(PartiallySent r \<longleftrightarrow>
      (0 < sint (SuccessfulSrcBatches r) \<or> 0 < sint (SuccessfulDstBatches r)) \<and>
      (SrcSendError r \<noteq> [] \<or> DstSendError r \<noteq> [])) \<and>
   (SrcSendError r = [] \<and> DstSendError r = [] \<longrightarrow> \<not> PartiallySent r) \<and>
   (SuccessfulSrcBatches r = 0 \<and> SuccessfulDstBatches r = 0 \<longrightarrow> \<not> PartiallySent r)"
  by (auto simp: PartiallySent_def word_sless_alt)

theorem PartiallySent_iff_witness:
  "PartiallySent \<lparr>SuccessfulSrcBatches = 2, SuccessfulDstBatches = 0,
                  SrcSendError = [''timeout''], DstSendError = []\<rparr> \<and>
   \<not> PartiallySent \<lparr>SuccessfulSrcBatches = 2, SuccessfulDstBatches = 1,
                    SrcSendError = [], DstSendError = ([] :: string list)\<rparr> \<and>
   \<not> PartiallySent \<lparr>SuccessfulSrcBatches = 0, SuccessfulDstBatches = 0,
                    SrcSendError = [''timeout''], DstSendError = [''refused'']\<rparr>"
  using PartiallySent_iff [of "\<lparr>SuccessfulSrcBatches = 2, SuccessfulDstBatches = 0,
                  SrcSendError = [''timeout''], DstSendError = []\<rparr>"]
    PartiallySent_iff [of "\<lparr>SuccessfulSrcBatches = 2, SuccessfulDstBatches = 1,
                    SrcSendError = [], DstSendError = ([] :: string list)\<rparr>"]
    PartiallySent_iff [of "\<lparr>SuccessfulSrcBatches = 0, SuccessfulDstBatches = 0,
                    SrcSendError = [''timeout''], DstSendError = [''refused'']\<rparr>"]
  by simp

text \<open>
  Claim C9. \<open>DecodeMsgs\<close> returns, in the order of the input, the parsed value of every
  blob that parses, and leaves out every blob that does not; one bad blob does not stop
  the others. For three blobs of which only the second fails to parse, the result is the
  parsed first blob followed by the parsed third.
\<close>

theorem DecodeMsgs_omits_failures:
  "DecodeMsgs u msgs = List.map_filter (parsed u) msgs \<and>
   (u b1 = Inr m1 \<and> u b2 = Inl err \<and> u b3 = Inr m3 \<longrightarrow> DecodeMsgs u [b1, b2, b3] = [m1, m3])"
  by (simp add: DecodeMsgs_def DecodeLoop_map_filter List.map_filter_def parsed_def)

theorem DecodeMsgs_omits_failures_witness:
  "DecodeMsgs (\<lambda>b. if b = ''{'' then Inl ''unexpected end of input'' else Inr (Some b))
     [''[1]'', ''{'', ''[2]''] = [Some ''[1]'', Some ''[2]'']"
  using DecodeMsgs_omits_failures
    [of "\<lambda>b. if b = ''{'' then Inl ''unexpected end of input'' else Inr (Some b)"
        "[]" "''[1]''" "Some ''[1]''" "''{''" "''unexpected end of input''"
        "''[2]''" "Some ''[2]''"]
  by simp

text \<open>
  Claim C10. \<open>Ready\<close> never panics: on a nil container it returns false, and on a
  container that is there it returns whether one of the two sequences is non-empty. A
  caller needs no nil test before it.
\<close>

theorem Ready_nil_safe:
  "Ready (None :: 'm RelayMsgs option) = (Inr False :: 'x panic + bool) \<and>
   Ready (Some (c :: 'm RelayMsgs)) = (Inr (Src c \<noteq> [] \<or> Dst c \<noteq> []) :: 'x panic + bool)"
  by (simp add: Ready_def field_def)

theorem Ready_nil_safe_witness:
  "Ready (None :: nat RelayMsgs option) = (Inr False :: unit panic + bool) \<and>
   Ready (Some (NewRelayMsgs :: nat RelayMsgs)) = (Inr False :: unit panic + bool) \<and>
   Ready (Some (NewRelayMsgs\<lparr>Dst := [Some (7 :: nat)]\<rparr>)) = (Inr True :: unit panic + bool)"
  using Ready_nil_safe [where ?'x = unit and c = "NewRelayMsgs :: nat RelayMsgs"]
    Ready_nil_safe [where ?'x = unit and c = "NewRelayMsgs\<lparr>Dst := [Some (7 :: nat)]\<rparr>"]
  by (simp add: NewRelayMsgs_def)

section \<open>The loop as batching followed by submission\<close>

lemma sendLoop_flushed:
  "sendLoop mb r submit xs p st =
     (submitAll submit (fst (flushed mb r xs p)) st, snd (flushed mb r xs p))"
proof (induction mb r xs p arbitrary: st rule: flushed.induct)
  case (1 mb r msgLen txSize msgs)
  show ?case by (simp add: submitAll_def)
next
  case (2 mb r rest msgLen txSize msgs)
  then show ?case by simp
next
  case (3 mb r msg rest msgLen txSize msgs)
  show ?case
  proof (cases "mb msg")
    case (Inl err)
    then show ?thesis by (simp add: submitAll_def)
  next
    case (Inr bz)
    show ?thesis
    proof (cases "IsMaxTx r (msgLen + 1) (txSize + of_nat (length bz))")
      case True
      with Inr "3.IH"(1) [OF Inr True, of "submit msgs st"] show ?thesis
        by (simp add: submitAll_def Let_def split: prod.splits)
    next
      case False
      with Inr "3.IH"(2) [OF Inr False, of st] show ?thesis
        by (simp add: Let_def)
    qed
  qed
qed

lemma submitAll_append:
  "submitAll submit (bs @ cs) st = submitAll submit cs (submitAll submit bs st)"
  by (simp add: submitAll_def)

lemma submitAll_Nil: "submitAll submit [] st = st"
  by (simp add: submitAll_def)

lemma submitAll_Cons: "submitAll submit (b # bs) st = submitAll submit bs (submit b st)"
  by (simp add: submitAll_def)

lemma Send_batches:
  "Send mb r ctx src dst w =
     (case batchesOf mb r (Src r) of
        (bs, Some p) \<Rightarrow> (fst (submitAll (sendSrc src ctx) bs (w, zeroResult)), Inl p)
      | (bs, None) \<Rightarrow>
          (case batchesOf mb r (Dst r) of
             (cs, Some p) \<Rightarrow>
               (fst (submitAll (sendDst dst ctx) cs (submitAll (sendSrc src ctx) bs (w, zeroResult))), Inl p)
           | (cs, None) \<Rightarrow>
               (fst (submitAll (sendDst dst ctx) cs (submitAll (sendSrc src ctx) bs (w, zeroResult))),
                Inr (snd (submitAll (sendDst dst ctx) cs (submitAll (sendSrc src ctx) bs (w, zeroResult)))))))"
  by (simp add: Send_def sendLoop_flushed batchesOf_def zeroResult_def submitAll_append
      submitAll_Nil submitAll_Cons Let_def split: prod.splits sum.splits)

lemma allOK_simps:
  "allOK mb [] = True"
  "allOK mb (None # xs) = allOK mb xs"
  "allOK mb (Some m # xs) = ((\<exists>bz. mb m = Inr bz) \<and> allOK mb xs)"
  by (auto simp: allOK_def split: sum.splits)

lemma flushed_concat:
  "flushed mb r xs (n, z, msgs) = (bs, Inr (n', z', msgs')) \<Longrightarrow>
   concat bs @ msgs' = msgs @ nonNil xs"
proof (induction mb r xs "(n, z, msgs)" arbitrary: n z msgs bs rule: flushed.induct)
  case (1 mb r msgLen txSize msgs)
  then show ?case by simp
next
  case (2 mb r rest msgLen txSize msgs)
  then show ?case by simp
next
  case (3 mb r msg rest msgLen txSize msgs)
  from "3.prems" obtain bz where bz: "mb msg = Inr bz"
    by (cases "mb msg") simp_all
  show ?case
  proof (cases "IsMaxTx r (msgLen + 1) (txSize + of_nat (length bz))")
    case True
    with bz "3.prems" obtain cs where
      cs: "flushed mb r rest (1, of_nat (length bz), [msg]) = (cs, Inr (n', z', msgs'))"
      and bs: "bs = msgs # cs"
      by (auto split: prod.splits)
    from "3.hyps"(1) [OF bz True cs] bs show ?thesis by simp
  next
    case False
    with bz "3.prems" have
      "flushed mb r rest (msgLen + 1, txSize + of_nat (length bz), msgs @ [msg]) = (bs, Inr (n', z', msgs'))"
      by simp
    from "3.hyps"(2) [OF bz False this] show ?thesis by simp
  qed
qed

lemma flushed_append:
  "flushed mb r (xs @ ys) p =
     (case flushed mb r xs p of
        (bs, Inl e) \<Rightarrow> (bs, Inl e)
      | (bs, Inr q) \<Rightarrow> (case flushed mb r ys q of (cs, fin) \<Rightarrow> (bs @ cs, fin)))"
proof (induction mb r xs p rule: flushed.induct)
  case (1 mb r msgLen txSize msgs)
  show ?case by (simp split: prod.splits)
next
  case (2 mb r rest msgLen txSize msgs)
  then show ?case by simp
next
  case (3 mb r msg rest msgLen txSize msgs)
  show ?case
  proof (cases "mb msg")
    case (Inl err)
    then show ?thesis by simp
  next
    case (Inr bz)
    show ?thesis
    proof (cases "IsMaxTx r (msgLen + 1) (txSize + of_nat (length bz))")
      case True
      with Inr "3.IH"(1) [OF Inr True] show ?thesis
        by (simp split: prod.splits sum.splits)
    next
      case False
      with Inr "3.IH"(2) [OF Inr False] show ?thesis
        by simp
    qed
  qed
qed

lemma flushed_allOK:
  "allOK mb xs \<Longrightarrow> \<exists>q. snd (flushed mb r xs p) = Inr q"
proof (induction mb r xs p rule: flushed.induct)
  case (1 mb r msgLen txSize msgs)
  show ?case by simp
next
  case (2 mb r rest msgLen txSize msgs)
  then show ?case by (simp add: allOK_simps)
next
  case (3 mb r msg rest msgLen txSize msgs)
  from "3.prems" obtain bz where bz: "mb msg = Inr bz" and rest: "allOK mb rest"
    by (auto simp: allOK_simps)
  show ?case
  proof (cases "IsMaxTx r (msgLen + 1) (txSize + of_nat (length bz))")
    case True
    with bz "3.IH"(1) [OF bz True rest] show ?thesis
      by (auto split: prod.splits)
  next
    case False
    with bz "3.IH"(2) [OF bz False rest] show ?thesis
      by simp
  qed
qed

lemma unat_Suc_word:
  fixes n :: uint64
  assumes "unat n + 1 < 2 ^ 64"
  shows "unat (n + 1) = unat n + 1"
  using assms by (simp add: unat_add_lem [THEN iffD1])

lemma flushed_bound:
  "MaxMsgLength r \<noteq> 0 \<Longrightarrow> unat n = length msgs \<Longrightarrow> length msgs \<le> unat (MaxMsgLength r) \<Longrightarrow>
     length msgs + length xs < 2 ^ 64 \<Longrightarrow> flushed mb r xs (n, z, msgs) = (bs, fin) \<Longrightarrow>
     (\<forall>b\<in>set bs. length b \<le> unat (MaxMsgLength r)) \<and>
     (\<forall>n' z' msgs'. fin = Inr (n', z', msgs') \<longrightarrow> length msgs' \<le> unat (MaxMsgLength r))"
proof (induction mb r xs "(n, z, msgs)" arbitrary: n z msgs bs rule: flushed.induct)
  case (1 mb r msgLen txSize msgs)
  then show ?case by auto
next
  case (2 mb r rest msgLen txSize msgs)
  from "2.hyps" [OF "2.prems"(1) "2.prems"(2) "2.prems"(3)] "2.prems"(4,5)
  show ?case by simp
next
  case (3 mb r msg rest msgLen txSize msgs)
  note pos = "3.prems"(1)
  show ?case
  proof (cases "mb msg")
    case (Inl err)
    with "3.prems" show ?thesis by auto
  next
    case (Inr bz)
    show ?thesis
    proof (cases "IsMaxTx r (msgLen + 1) (txSize + of_nat (length bz))")
      case True
      with Inr "3.prems" obtain cs where
        cs: "flushed mb r rest (1, of_nat (length bz), [msg]) = (cs, fin)"
        and bs: "bs = msgs # cs"
        by (auto split: prod.splits)
      from pos have "0 < unat (MaxMsgLength r)"
        by (simp add: unat_gt_0)
      then have one: "length [msg] \<le> unat (MaxMsgLength r)"
        by simp
      have "unat (1 :: uint64) = length [msg]" by simp
      from "3.hyps"(1) [OF Inr True pos this one _ cs] "3.prems"(4) "3.prems"(3) bs
      show ?thesis by simp
    next
      case False
      with Inr "3.prems" have
        fl: "flushed mb r rest (msgLen + 1, txSize + of_nat (length bz), msgs @ [msg]) = (bs, fin)"
        by simp
      from "3.prems"(2,4) have "unat msgLen + 1 < 2 ^ 64" by simp
      then have suc: "unat (msgLen + 1) = unat msgLen + 1" by (rule unat_Suc_word)
      with "3.prems"(2) have len: "unat (msgLen + 1) = length (msgs @ [msg])" by simp
      from False pos have "msgLen + 1 \<le> MaxMsgLength r"
        by (simp add: IsMaxTx_def not_less)
      then have "unat (msgLen + 1) \<le> unat (MaxMsgLength r)"
        by (simp add: word_le_nat_alt)
      with len have le: "length (msgs @ [msg]) \<le> unat (MaxMsgLength r)" by simp
      from "3.prems"(4) have "length (msgs @ [msg]) + length rest < 2 ^ 64" by simp
      from "3.hyps"(2) [OF Inr False pos len le this fl] show ?thesis .
    qed
  qed
qed

section \<open>Single submissions and runs of submissions\<close>

lemma multierr_Append_eq: "multierr_Append left right = left @ right"
  by (simp add: multierr_Append_def)

lemma sendSrc_eq:
  "sendSrc src ctx b st =
     (let out = fst (SendMessages src ctx b (srcChain (fst st)))
      in ((fst st)\<lparr>trace := trace (fst st) @ [(ToSrc, b, out)],
                    srcChain := snd (SendMessages src ctx b (srcChain (fst st)))\<rparr>,
          (snd st)\<lparr>SrcSendError := SrcSendError (snd st) @ snd (snd out),
                    SuccessfulSrcBatches :=
                      SuccessfulSrcBatches (snd st) + (if fst (snd out) then 1 else 0)\<rparr>))"
  by (cases st) (simp add: sendSrc_def Let_def multierr_Append_eq split: prod.splits)

lemma sendDst_eq:
  "sendDst dst ctx b st =
     (let out = fst (SendMessages dst ctx b (dstChain (fst st)))
      in ((fst st)\<lparr>trace := trace (fst st) @ [(ToDst, b, out)],
                    dstChain := snd (SendMessages dst ctx b (dstChain (fst st)))\<rparr>,
          (snd st)\<lparr>DstSendError := DstSendError (snd st) @ snd (snd out),
                    SuccessfulDstBatches :=
                      SuccessfulDstBatches (snd st) + (if fst (snd out) then 1 else 0)\<rparr>))"
  by (cases st) (simp add: sendDst_def Let_def multierr_Append_eq split: prod.splits)

lemma sendSrc_calls:
  "map call_of (trace (fst (sendSrc src ctx b st))) = map call_of (trace (fst st)) @ [(ToSrc, b)]"
  by (simp add: sendSrc_eq Let_def call_of_def target_of_def batch_of_def)

lemma sendDst_calls:
  "map call_of (trace (fst (sendDst dst ctx b st))) = map call_of (trace (fst st)) @ [(ToDst, b)]"
  by (simp add: sendDst_eq Let_def call_of_def target_of_def batch_of_def)

lemma sendSrc_dstPart: "dstPart (sendSrc src ctx b st) = dstPart st"
  by (simp add: sendSrc_eq Let_def dstPart_def callsTo_def target_of_def)

lemma sendDst_dstPart:
  "dstPart st = dstPart st' \<Longrightarrow> dstPart (sendDst dst ctx b st) = dstPart (sendDst dst ctx b st')"
  by (simp add: sendDst_eq Let_def dstPart_def callsTo_def target_of_def)

lemma sendSrc_accounted: "accounted st \<Longrightarrow> accounted (sendSrc src ctx b st)"
  by (simp add: sendSrc_eq Let_def accounted_def callsTo_def target_of_def error_of_def success_of_def)

lemma sendDst_accounted: "accounted st \<Longrightarrow> accounted (sendDst dst ctx b st)"
  by (simp add: sendDst_eq Let_def accounted_def callsTo_def target_of_def error_of_def success_of_def)

lemma submitAll_src_calls:
  "map call_of (trace (fst (submitAll (sendSrc src ctx) bs st))) =
     map call_of (trace (fst st)) @ map (Pair ToSrc) bs"
  by (induction bs arbitrary: st) (simp_all add: submitAll_Nil submitAll_Cons sendSrc_calls)

lemma submitAll_dst_calls:
  "map call_of (trace (fst (submitAll (sendDst dst ctx) bs st))) =
     map call_of (trace (fst st)) @ map (Pair ToDst) bs"
  by (induction bs arbitrary: st) (simp_all add: submitAll_Nil submitAll_Cons sendDst_calls)

lemma submitAll_src_dstPart: "dstPart (submitAll (sendSrc src ctx) bs st) = dstPart st"
  by (induction bs arbitrary: st) (simp_all add: submitAll_Nil submitAll_Cons sendSrc_dstPart)

lemma submitAll_dst_dstPart:
  "dstPart st = dstPart st' \<Longrightarrow>
   dstPart (submitAll (sendDst dst ctx) bs st) = dstPart (submitAll (sendDst dst ctx) bs st')"
proof (induction bs arbitrary: st st')
  case Nil
  then show ?case by (simp add: submitAll_Nil)
next
  case (Cons b bs)
  from Cons.prems have "dstPart (sendDst dst ctx b st) = dstPart (sendDst dst ctx b st')"
    by (rule sendDst_dstPart)
  then show ?case unfolding submitAll_Cons by (rule Cons.IH)
qed

lemma submitAll_src_accounted: "accounted st \<Longrightarrow> accounted (submitAll (sendSrc src ctx) bs st)"
  by (induction bs arbitrary: st) (simp_all add: submitAll_Nil submitAll_Cons sendSrc_accounted)

lemma submitAll_dst_accounted: "accounted st \<Longrightarrow> accounted (submitAll (sendDst dst ctx) bs st)"
  by (induction bs arbitrary: st) (simp_all add: submitAll_Nil submitAll_Cons sendDst_accounted)

section \<open>Send as a plan of calls\<close>

lemma Send_calls:
  "map call_of (trace (fst (Send mb r ctx src dst w))) = map call_of (trace w) @ plan mb r"
  by (simp add: Send_batches plan_def submitAll_src_calls submitAll_dst_calls
      split: prod.splits option.splits)

lemma Send_fate: "panic_of (Send mb r ctx src dst w) = fate mb r"
  by (simp add: Send_batches fate_def panic_of_def split: prod.splits option.splits)

lemma batches_of_calls:
  "map batch_of (callsTo t tr) = map snd (filter (\<lambda>c. fst c = t) (map call_of tr))"
  by (induction tr) (simp_all add: callsTo_def call_of_def)

lemma filter_Pair_same: "filter (\<lambda>c. fst c = t) (map (Pair t) bs) = map (Pair t) bs"
  by (induction bs) simp_all

lemma filter_Pair_other: "t \<noteq> u \<Longrightarrow> filter (\<lambda>c. fst c = t) (map (Pair u) bs) = []"
  by (induction bs) simp_all

lemma batchesOf_concat:
  "batchesOf mb r xs = (bs, None) \<Longrightarrow> concat bs = nonNil xs"
  using flushed_concat [of mb r xs 0 0 "[]"]
  by (auto simp: batchesOf_def split: prod.splits sum.splits if_splits)

lemma batchesOf_bound:
  assumes "MaxMsgLength r \<noteq> 0" and "length xs < 2 ^ 63"
  shows "\<forall>b\<in>set (fst (batchesOf mb r xs)). length b \<le> unat (MaxMsgLength r)"
proof -
  obtain bs fin where fl: "flushed mb r xs (0, 0, []) = (bs, fin)"
    by (cases "flushed mb r xs (0, 0, [])")
  have "unat (0 :: uint64) = length ([] :: 'a list)" by simp
  moreover have "length ([] :: 'a list) \<le> unat (MaxMsgLength r)" by simp
  moreover from assms(2) have "length ([] :: 'a list) + length xs < 2 ^ 64" by simp
  ultimately have
    "(\<forall>b\<in>set bs. length b \<le> unat (MaxMsgLength r)) \<and>
     (\<forall>n' z' msgs'. fin = Inr (n', z', msgs') \<longrightarrow> length msgs' \<le> unat (MaxMsgLength r))"
    using fl by (rule flushed_bound [OF assms(1)])
  with fl show ?thesis
    by (auto simp: batchesOf_def split: sum.splits if_splits)
qed

lemma plan_batches:
  "map snd (plan mb r) = fst (batchesOf mb r (Src r)) @
     (case snd (batchesOf mb r (Src r)) of Some p \<Rightarrow> [] | None \<Rightarrow> fst (batchesOf mb r (Dst r)))"
  by (simp add: plan_def comp_def split: prod.splits option.splits)

lemma accounted_start: "accounted (startWorld s t, zeroResult)"
  by (simp add: accounted_def startWorld_def zeroResult_def callsTo_def)

lemma Send_accounted:
  "accounted (w, zeroResult) \<Longrightarrow> Send mb r ctx src dst w = (w', Inr res) \<Longrightarrow> accounted (w', res)"
  by (auto simp: Send_batches split: prod.splits option.splits
      intro!: submitAll_dst_accounted submitAll_src_accounted)

lemma dstSide_Inl:
  "dstSide (fst st, Inl p) = (fst (dstPart st), fst (snd (dstPart st)), Inl p)"
  by (simp add: dstSide_def dstPart_def)

lemma dstSide_Inr:
  "dstSide (fst st, Inr (snd st)) = (fst (dstPart st), fst (snd (dstPart st)), Inr (snd (snd (dstPart st))))"
  by (simp add: dstSide_def dstPart_def)

lemma dstPart_start: "dstPart (startWorld s t, zeroResult) = ([], t, 0, [])"
  by (simp add: dstPart_def startWorld_def zeroResult_def callsTo_def)

lemma Send_dstSide:
  "dstSide (Send mb r ctx src dst (startWorld s t)) =
   dstSide (Send mb r ctx src' dst (startWorld s' t))"
proof -
  obtain bs p where bs: "batchesOf mb r (Src r) = (bs, p)"
    by (cases "batchesOf mb r (Src r)")
  obtain cs q where cs: "batchesOf mb r (Dst r) = (cs, q)"
    by (cases "batchesOf mb r (Dst r)")
  let ?st = "submitAll (sendSrc src ctx) bs (startWorld s t, zeroResult)"
  let ?st' = "submitAll (sendSrc src' ctx) bs (startWorld s' t, zeroResult)"
  have src: "dstPart ?st = dstPart ?st'"
    by (simp add: submitAll_src_dstPart dstPart_start)
  then have dst: "dstPart (submitAll (sendDst dst ctx) cs ?st) = dstPart (submitAll (sendDst dst ctx) cs ?st')"
    by (rule submitAll_dst_dstPart)
  show ?thesis
  proof (cases p)
    case (Some e)
    with bs src show ?thesis
      by (simp add: Send_batches dstSide_Inl)
  next
    case None
    with bs cs dst show ?thesis
      by (cases q) (simp_all add: Send_batches dstSide_Inl dstSide_Inr)
  qed
qed

lemma plan_targets:
  "\<exists>n k. map fst (plan mb r) = replicate n ToSrc @ replicate k ToDst"
proof (cases "batchesOf mb r (Src r)")
  case (Pair bs p)
  show ?thesis
  proof (cases p)
    case (Some e)
    with Pair have "map fst (plan mb r) = replicate (length bs) ToSrc @ replicate 0 ToDst"
      by (simp add: plan_def comp_def map_replicate_const)
    then show ?thesis by blast
  next
    case None
    with Pair have "map fst (plan mb r) =
        replicate (length bs) ToSrc @ replicate (length (fst (batchesOf mb r (Dst r)))) ToDst"
      by (simp add: plan_def comp_def map_replicate_const)
    then show ?thesis by blast
  qed
qed

lemma IsMaxTx_limits:
  "MaxTxSize r' = MaxTxSize r \<Longrightarrow> MaxMsgLength r' = MaxMsgLength r \<Longrightarrow> IsMaxTx r' = IsMaxTx r"
  by (simp add: IsMaxTx_def fun_eq_iff)

lemma flushed_limits:
  "IsMaxTx r' = IsMaxTx r \<Longrightarrow> flushed mb r' xs p = flushed mb r xs p"
proof (induction mb r xs p rule: flushed.induct)
  case (1 mb r msgLen txSize msgs)
  show ?case by simp
next
  case (2 mb r rest msgLen txSize msgs)
  then show ?case by simp
next
  case (3 mb r msg rest msgLen txSize msgs)
  show ?case
  proof (cases "mb msg")
    case (Inl err)
    then show ?thesis by simp
  next
    case (Inr bz)
    show ?thesis
    proof (cases "IsMaxTx r (msgLen + 1) (txSize + of_nat (length bz))")
      case True
      with Inr "3.IH"(1) [OF Inr True "3.prems"] "3.prems" show ?thesis
        by simp
    next
      case False
      with Inr "3.IH"(2) [OF Inr False "3.prems"] "3.prems" show ?thesis
        by simp
    qed
  qed
qed

lemma batchesOf_limits:
  "MaxTxSize r' = MaxTxSize r \<Longrightarrow> MaxMsgLength r' = MaxMsgLength r \<Longrightarrow>
   batchesOf mb r' xs = batchesOf mb r xs"
  using flushed_limits [OF IsMaxTx_limits, of r' r mb xs "(0, 0, [])"]
  by (simp add: batchesOf_def)

lemma src_then_dst:
  assumes "map target_of tr = replicate n ToSrc @ replicate k ToDst"
  shows "tr = callsTo ToSrc tr @ callsTo ToDst tr"
proof -
  from assms obtain a b where tr: "tr = a @ b"
    and a: "map target_of a = replicate n ToSrc" and b: "map target_of b = replicate k ToDst"
    by (auto simp: map_eq_append_conv)
  from a have "\<forall>ev\<in>set a. target_of ev = ToSrc"
    by (metis in_set_replicate image_eqI list.set_map)
  moreover from b have "\<forall>ev\<in>set b. target_of ev = ToDst"
    by (metis in_set_replicate image_eqI list.set_map)
  ultimately show ?thesis
    by (simp add: tr callsTo_def filter_id_conv filter_empty_conv)
qed


lemma Send_src_then_dst:
  "trace (fst (Send mb r ctx src dst (startWorld s t))) =
     callsTo ToSrc (trace (fst (Send mb r ctx src dst (startWorld s t)))) @
     callsTo ToDst (trace (fst (Send mb r ctx src dst (startWorld s t))))"
proof -
  let ?tr = "trace (fst (Send mb r ctx src dst (startWorld s t)))"
  have "map target_of ?tr = map fst (map call_of ?tr)"
    by (simp add: call_of_def comp_def)
  also have "\<dots> = map fst (plan mb r)"
    by (simp add: Send_calls startWorld_def)
  finally obtain n k where "map target_of ?tr = replicate n ToSrc @ replicate k ToDst"
    using plan_targets [of mb r] by auto
  then show ?thesis by (rule src_then_dst)
qed

lemma batchesOf_fail:
  assumes "allOK mb pre" and "mb m = Inl err"
  shows "batchesOf mb r (pre @ Some m # post) = (fst (flushed mb r pre (0, 0, [])), Some (Raised err))"
proof -
  from flushed_allOK [OF assms(1), of r "(0, 0, [])"] obtain bs q
    where "flushed mb r pre (0, 0, []) = (bs, Inr q)"
    by (cases "flushed mb r pre (0, 0, [])") auto
  with assms(2) show ?thesis
    by (cases q) (simp add: batchesOf_def flushed_append)
qed

lemma batchesOf_ok:
  assumes "allOK mb xs"
  shows "\<exists>lo. batchesOf mb r xs = (fst (flushed mb r xs (0, 0, [])) @ lo, None)"
proof -
  from flushed_allOK [OF assms, of r "(0, 0, [])"] obtain bs q
    where "flushed mb r xs (0, 0, []) = (bs, Inr q)"
    by (cases "flushed mb r xs (0, 0, [])") auto
  then show ?thesis
    by (cases q) (simp add: batchesOf_def)
qed

lemma Send_returns:
  assumes "allOK mb (Src r)" and "allOK mb (Dst r)"
  shows "fate mb r = None"
proof -
  from batchesOf_ok [OF assms(1), of r] batchesOf_ok [OF assms(2), of r]
  show ?thesis by (auto simp: fate_def)
qed

lemma replay_append:
  "replay ctx src dst (tr @ tr') st =
     (case replay ctx src dst tr st of None \<Rightarrow> None | Some st' \<Rightarrow> replay ctx src dst tr' st')"
proof (induction ctx src dst tr st rule: replay.induct)
  case (1 ctx src dst s t)
  show ?case by simp
next
  case (2 ctx src dst b out rest s t)
  then show ?case by (simp split: prod.splits)
next
  case (3 ctx src dst b out rest s t)
  then show ?case by (simp split: prod.splits)
qed

lemma sendSrc_replayed:
  "replayed ctx src dst s t st \<Longrightarrow> replayed ctx src dst s t (sendSrc src ctx b st)"
  by (simp add: replayed_def sendSrc_eq Let_def replay_append split: prod.splits)

lemma sendDst_replayed:
  "replayed ctx src dst s t st \<Longrightarrow> replayed ctx src dst s t (sendDst dst ctx b st)"
  by (simp add: replayed_def sendDst_eq Let_def replay_append split: prod.splits)

lemma submitAll_src_replayed:
  "replayed ctx src dst s t st \<Longrightarrow> replayed ctx src dst s t (submitAll (sendSrc src ctx) bs st)"
  by (induction bs arbitrary: st) (simp_all add: submitAll_Nil submitAll_Cons sendSrc_replayed)

lemma submitAll_dst_replayed:
  "replayed ctx src dst s t st \<Longrightarrow> replayed ctx src dst s t (submitAll (sendDst dst ctx) bs st)"
  by (induction bs arbitrary: st) (simp_all add: submitAll_Nil submitAll_Cons sendDst_replayed)

lemma replayed_start: "replayed ctx src dst s t (startWorld s t, zeroResult)"
  by (simp add: replayed_def startWorld_def)

lemma replayed_fst: "replayed ctx src dst s t (fst st, res) = replayed ctx src dst s t st"
  by (simp add: replayed_def)

lemma Send_replayed:
  "replayed ctx src dst s t (fst (Send mb r ctx src dst (startWorld s t)), res)"
proof -
  let ?st = "\<lambda>bs. submitAll (sendSrc src ctx) bs (startWorld s t, zeroResult)"
  have 1: "replayed ctx src dst s t (?st bs)" for bs
    by (rule submitAll_src_replayed) (rule replayed_start)
  have 2: "replayed ctx src dst s t (submitAll (sendDst dst ctx) cs (?st bs))" for bs cs
    by (rule submitAll_dst_replayed) (rule 1)
  show ?thesis
    using 1 2
    by (simp add: Send_batches replayed_fst split: prod.splits option.splits)
qed

lemma flushed_prefix:
  "flushed mb r xs (n, z, msgs) = (bs, fin) \<Longrightarrow> prefix (concat bs) (msgs @ nonNil xs)"
proof (induction mb r xs "(n, z, msgs)" arbitrary: n z msgs bs rule: flushed.induct)
  case (1 mb r msgLen txSize msgs)
  then show ?case by auto
next
  case (2 mb r rest msgLen txSize msgs)
  then show ?case by simp
next
  case (3 mb r msg rest msgLen txSize msgs)
  show ?case
  proof (cases "mb msg")
    case (Inl err)
    with "3.prems" show ?thesis by auto
  next
    case (Inr bz)
    show ?thesis
    proof (cases "IsMaxTx r (msgLen + 1) (txSize + of_nat (length bz))")
      case True
      with Inr "3.prems" obtain cs where
        cs: "flushed mb r rest (1, of_nat (length bz), [msg]) = (cs, fin)"
        and bs: "bs = msgs # cs"
        by (auto split: prod.splits)
      from "3.hyps"(1) [OF Inr True cs] bs show ?thesis by simp
    next
      case False
      with Inr "3.prems" have
        "flushed mb r rest (msgLen + 1, txSize + of_nat (length bz), msgs @ [msg]) = (bs, fin)"
        by simp
      from "3.hyps"(2) [OF Inr False this] show ?thesis by simp
    qed
  qed
qed

lemma flushed_pending:
  "flushed mb r xs (n, z, msgs) = (bs, Inr (n', z', msgs')) \<Longrightarrow>
   msgs \<noteq> [] \<or> nonNil xs \<noteq> [] \<Longrightarrow> msgs' \<noteq> []"
proof (induction mb r xs "(n, z, msgs)" arbitrary: n z msgs bs rule: flushed.induct)
  case (1 mb r msgLen txSize msgs)
  then show ?case by simp
next
  case (2 mb r rest msgLen txSize msgs)
  then show ?case by simp
next
  case (3 mb r msg rest msgLen txSize msgs)
  from "3.prems"(1) obtain bz where bz: "mb msg = Inr bz"
    by (cases "mb msg") simp_all
  show ?case
  proof (cases "IsMaxTx r (msgLen + 1) (txSize + of_nat (length bz))")
    case True
    with bz "3.prems"(1) obtain cs where
      cs: "flushed mb r rest (1, of_nat (length bz), [msg]) = (cs, Inr (n', z', msgs'))"
      by (auto split: prod.splits)
    from "3.hyps"(1) [OF bz True cs] show ?thesis by simp
  next
    case False
    with bz "3.prems"(1) have
      "flushed mb r rest (msgLen + 1, txSize + of_nat (length bz), msgs @ [msg]) = (bs, Inr (n', z', msgs'))"
      by simp
    from "3.hyps"(2) [OF bz False this] show ?thesis by simp
  qed
qed

lemma batchesOf_prefix: "prefix (concat (fst (batchesOf mb r xs))) (nonNil xs)"
proof (cases "flushed mb r xs (0, 0, [])")
  case (Pair bs fin)
  show ?thesis
  proof (cases fin)
    case (Inl p)
    with Pair flushed_prefix [of mb r xs 0 0 "[]" bs fin] show ?thesis
      by (simp add: batchesOf_def)
  next
    case (Inr q)
    obtain n z msgs where q: "q = (n, z, msgs)" by (cases q)
    with Pair Inr flushed_concat [of mb r xs 0 0 "[]" bs n z msgs] show ?thesis
      by (auto simp: batchesOf_def)
  qed
qed

lemma batchesOf_leftover:
  assumes "allOK mb xs"
  shows "batchesOf mb r xs =
     (fst (flushed mb r xs (0, 0, [])) @
        (if nonNil xs = [] then [] else [snd (snd (projr (snd (flushed mb r xs (0, 0, [])))))]), None) \<and>
     (nonNil xs = [] \<or> snd (snd (projr (snd (flushed mb r xs (0, 0, []))))) \<noteq> [])"
proof -
  from flushed_allOK [OF assms, of r "(0, 0, [])"] obtain bs n z msgs
    where fl: "flushed mb r xs (0, 0, []) = (bs, Inr (n, z, msgs))"
    by (cases "flushed mb r xs (0, 0, [])") auto
  show ?thesis
  proof (cases "nonNil xs = []")
    case True
    with flushed_concat [OF fl] have "msgs = []" by simp
    with fl True show ?thesis by (simp add: batchesOf_def)
  next
    case False
    with flushed_pending [OF fl] have "msgs \<noteq> []" by simp
    with fl False show ?thesis by (simp add: batchesOf_def)
  qed
qed

lemma Send_src_batches:
  "map batch_of (callsTo ToSrc (trace (fst (Send mb r ctx src dst (startWorld s t))))) =
     fst (batchesOf mb r (Src r))"
  by (simp add: batches_of_calls Send_calls startWorld_def plan_def filter_Pair_same
      filter_Pair_other comp_def split: prod.splits option.splits)

lemma Send_dst_batches:
  "map batch_of (callsTo ToDst (trace (fst (Send mb r ctx src dst (startWorld s t))))) =
     (case snd (batchesOf mb r (Src r)) of Some p \<Rightarrow> [] | None \<Rightarrow> fst (batchesOf mb r (Dst r)))"
  by (simp add: batches_of_calls Send_calls startWorld_def plan_def filter_Pair_same
      filter_Pair_other comp_def split: prod.splits option.splits)

lemma sendSrc_butlast: "butlast (trace (fst (sendSrc src ctx b st))) = trace (fst st)"
  by (simp add: sendSrc_eq Let_def)

lemma sendDst_butlast: "butlast (trace (fst (sendDst dst ctx b st))) = trace (fst st)"
  by (simp add: sendDst_eq Let_def)

lemmas ex_simps = Send_def zeroResult_def sendSrc_def sendDst_def IsMaxTx_def Let_def startWorld_def
  exBytes_def exSender_def exDown_def multierr_Append_def exA_def exB_def exC_def exE_def

lemma run_exA:
  "Send exBytes exA False exSender exSender (startWorld 0 0) =
     (\<lparr>trace = [(ToSrc, [10, 10], Some (), True, []), (ToSrc, [10], None, False, [''timeout'']),
                (ToDst, [3], Some (), True, [])],
        srcChain = 2, dstChain = 1\<rparr>,
      Inr \<lparr>SuccessfulSrcBatches = 1, SuccessfulDstBatches = 1,
           SrcSendError = [''timeout''], DstSendError = []\<rparr>)"
  by (simp add: ex_simps)

lemma run_exB_cancelled:
  "Send exBytes exB True exSender exSender (startWorld 0 0) =
     (\<lparr>trace = [(ToSrc, [1], None, False, [''context canceled'']),
                (ToSrc, [2], None, False, [''context canceled'']),
                (ToDst, [3], None, False, [''context canceled''])],
        srcChain = 0, dstChain = 0\<rparr>,
      Inr \<lparr>SuccessfulSrcBatches = 0, SuccessfulDstBatches = 0,
           SrcSendError = [''context canceled'', ''context canceled''],
           DstSendError = [''context canceled'']\<rparr>)"
  by (simp add: ex_simps)

section \<open>The claims about Send\<close>

text \<open>
  Claim C1. Send never submits an empty batch: every call of a sender's
  \<open>SendMessages\<close> gets a non-empty sequence of messages. The code breaks this. When
  the first non-nil message of a sequence is by itself larger than \<open>MaxTxSize\<close>,
  \<open>IsMaxTx\<close> holds while \<open>msgs\<close> is still empty, and the loop submits that empty
  \<open>msgs\<close>: the test \<open>len(msgs) > 0\<close> that guards the leftover submission is missing
  in the loop. Here a single message of 10 bytes with \<open>MaxTxSize\<close> 5 gives two calls
  to the source sender, the first with no message, whatever the senders are.
\<close>

theorem Send_oversized_first_message_submits_empty_batch:
  "map call_of (trace (fst (Send (\<lambda>m. Inr (replicate 10 0))
      \<lparr>Src = [Some m], Dst = [], MaxTxSize = 5, MaxMsgLength = 0\<rparr> ctx src dst (startWorld s t)))) =
   [(ToSrc, []), (ToSrc, [m])]"
  by (simp add: Send_calls plan_def batchesOf_def IsMaxTx_def startWorld_def)

text \<open>
  Claim C2. For each of the two sequences and any limits, the batches Send passes to
  that sequence's sender, concatenated in the order of the calls, are exactly the non-nil
  messages of the sequence, in order: none lost, none twice, none out of place. As stated,
  for every input, this fails: a message that does not serialise makes Send panic, and the
  messages still pending then are never submitted. Here the message 3 serialises, comes
  before the failing message 0, and is lost.
\<close>

theorem Send_panic_loses_messages:
  "exBytes 3 = Inr [0, 0, 0] \<and>
   nonNil (Src exC) = [2, 3, 0, 4] \<and>
   concat (map batch_of (callsTo ToSrc
     (trace (fst (Send exBytes exC False exSender exSender (startWorld 0 0)))))) = [2] \<and>
   concat (map batch_of (callsTo ToSrc
     (trace (fst (Send exBytes exC False exSender exSender (startWorld 0 0)))))) \<noteq> nonNil (Src exC)"
  by (simp add: ex_simps callsTo_def target_of_def batch_of_def numeral_3_eq_3)

text \<open>
  Claim C2, as the code has it. For any input, limits and senders, the batches passed to
  a sender, concatenated in the order of the calls, are an initial part of the non-nil
  messages of its sequence: none twice, none out of place. When every non-nil message of
  \<open>Src\<close> serialises they are all of the non-nil messages of \<open>Src\<close>; when every
  non-nil message of \<open>Dst\<close> serialises as well, Send returns and the same holds for
  \<open>Dst\<close>.
\<close>

theorem Send_batches_concat:
  "prefix (concat (map batch_of (callsTo ToSrc (trace (fst (Send mb r ctx src dst (startWorld s t)))))))
     (nonNil (Src r)) \<and>
   prefix (concat (map batch_of (callsTo ToDst (trace (fst (Send mb r ctx src dst (startWorld s t)))))))
     (nonNil (Dst r)) \<and>
   (allOK mb (Src r) \<longrightarrow>
      concat (map batch_of (callsTo ToSrc (trace (fst (Send mb r ctx src dst (startWorld s t)))))) =
        nonNil (Src r)) \<and>
   (allOK mb (Src r) \<and> allOK mb (Dst r) \<longrightarrow>
      panic_of (Send mb r ctx src dst (startWorld s t)) = None \<and>
      concat (map batch_of (callsTo ToDst (trace (fst (Send mb r ctx src dst (startWorld s t)))))) =
        nonNil (Dst r))"
proof (intro conjI impI)
  show "prefix (concat (map batch_of (callsTo ToSrc (trace (fst (Send mb r ctx src dst (startWorld s t)))))))
     (nonNil (Src r))"
    by (simp add: Send_src_batches batchesOf_prefix)
  show "prefix (concat (map batch_of (callsTo ToDst (trace (fst (Send mb r ctx src dst (startWorld s t)))))))
     (nonNil (Dst r))"
    by (simp add: Send_dst_batches batchesOf_prefix split: option.splits)
next
  assume "allOK mb (Src r)"
  from batchesOf_ok [OF this, of r] obtain bs where bs: "batchesOf mb r (Src r) = (bs, None)"
    by blast
  from batchesOf_concat [OF bs] bs
  show "concat (map batch_of (callsTo ToSrc (trace (fst (Send mb r ctx src dst (startWorld s t)))))) =
        nonNil (Src r)"
    by (simp add: Send_src_batches)
next
  assume ok: "allOK mb (Src r) \<and> allOK mb (Dst r)"
  then show "panic_of (Send mb r ctx src dst (startWorld s t)) = None"
    by (simp add: Send_fate Send_returns)
  from ok batchesOf_ok [of mb "Src r" r] obtain bs where bs: "batchesOf mb r (Src r) = (bs, None)"
    by blast
  from ok batchesOf_ok [of mb "Dst r" r] obtain cs where cs: "batchesOf mb r (Dst r) = (cs, None)"
    by blast
  from batchesOf_concat [OF cs] bs cs
  show "concat (map batch_of (callsTo ToDst (trace (fst (Send mb r ctx src dst (startWorld s t)))))) =
        nonNil (Dst r)"
    by (simp add: Send_dst_batches)
qed

theorem Send_batches_concat_witness:
  "allOK exBytes (Src exE) \<and>
   concat (map batch_of (callsTo ToSrc
     (trace (fst (Send exBytes exE False exSender exSender (startWorld 0 0)))))) = [1] \<and>
   prefix (concat (map batch_of (callsTo ToDst
     (trace (fst (Send exBytes exE False exSender exSender (startWorld 0 0))))))) [2, 3, 0, 4] \<and>
   allOK exBytes (Src exA) \<and> allOK exBytes (Dst exA) \<and>
   panic_of (Send exBytes exA False exSender exSender (startWorld 0 0)) = None \<and>
   concat (map batch_of (callsTo ToSrc
     (trace (fst (Send exBytes exA False exSender exSender (startWorld 0 0)))))) = [10, 10, 10] \<and>
   concat (map batch_of (callsTo ToDst
     (trace (fst (Send exBytes exA False exSender exSender (startWorld 0 0)))))) = [3]"
proof -
  have ok: "allOK exBytes (Src exE)" "allOK exBytes (Src exA)" "allOK exBytes (Dst exA)"
    by (simp_all add: allOK_def exA_def exE_def exBytes_def)
  have nn: "nonNil (Src exE) = [1]" "nonNil (Dst exE) = [2, 3, 0, 4]"
    "nonNil (Src exA) = [10, 10, 10]" "nonNil (Dst exA) = [3]"
    by (simp_all add: exA_def exE_def)
  from Send_batches_concat [of exBytes exE False exSender exSender 0 0]
    Send_batches_concat [of exBytes exA False exSender exSender 0 0] ok nn
  show ?thesis by simp
qed

text \<open>
  Claim C3. Once a sender call has returned a cancellation error, Send starts no further
  submission on either chain, and still returns the results gathered so far. The code has
  no such stop: it never looks at the context or at the kind of error, so with a cancelled
  context and senders that honour it Send still makes every call.
\<close>

theorem Send_submits_after_cancellation:
  "trace (fst (Send exBytes exB True exSender exSender (startWorld 0 0))) =
     [(ToSrc, [1], None, False, [''context canceled'']),
      (ToSrc, [2], None, False, [''context canceled'']),
      (ToDst, [3], None, False, [''context canceled''])] \<and>
   \<not> noCallAfter reportsCancel
       (trace (fst (Send exBytes exB True exSender exSender (startWorld 0 0))))"
  by (simp add: ex_simps reportsCancel_def error_of_def)

text \<open>
  Claim C3, as the code has it. A cancellation error is an error like any other and stops
  nothing. The calls Send makes, sender and batch of each, in order, are the same
  whatever the senders answer and whatever the context is, and so is whether Send
  returns a result. Every call is made with the context Send was given: each answer in
  the trace is the one the sender gives for that context. And the result Send returns
  holds, for each chain, every error answered in the order of the calls, a cancellation
  error included, and the number of answers with success.
\<close>

theorem Send_calls_fixed_answers_recorded:
  "map call_of (trace (fst (Send mb r ctx src dst (startWorld s t)))) =
   map call_of (trace (fst (Send mb r ctx' src' dst' (startWorld s' t')))) \<and>
   panic_of (Send mb r ctx src dst (startWorld s t)) =
   panic_of (Send mb r ctx' src' dst' (startWorld s' t')) \<and>
   replay ctx src dst (trace (fst (Send mb r ctx src dst (startWorld s t)))) (s, t) =
     Some (srcChain (fst (Send mb r ctx src dst (startWorld s t))),
           dstChain (fst (Send mb r ctx src dst (startWorld s t)))) \<and>
   (Send mb r ctx src dst (startWorld s t) = (w', Inr res) \<longrightarrow>
      SrcSendError res = concat (map error_of (callsTo ToSrc (trace w'))) \<and>
      SuccessfulSrcBatches res = of_nat (length (filter success_of (callsTo ToSrc (trace w')))) \<and>
      DstSendError res = concat (map error_of (callsTo ToDst (trace w'))) \<and>
      SuccessfulDstBatches res = of_nat (length (filter success_of (callsTo ToDst (trace w')))))"
proof (intro conjI impI)
  show "map call_of (trace (fst (Send mb r ctx src dst (startWorld s t)))) =
     map call_of (trace (fst (Send mb r ctx' src' dst' (startWorld s' t'))))"
    by (simp add: Send_calls startWorld_def)
  show "panic_of (Send mb r ctx src dst (startWorld s t)) =
     panic_of (Send mb r ctx' src' dst' (startWorld s' t'))"
    by (simp add: Send_fate)
  from Send_replayed [of ctx src dst s t mb r zeroResult]
  show "replay ctx src dst (trace (fst (Send mb r ctx src dst (startWorld s t)))) (s, t) =
     Some (srcChain (fst (Send mb r ctx src dst (startWorld s t))),
           dstChain (fst (Send mb r ctx src dst (startWorld s t))))"
    by (simp add: replayed_def)
next
  assume run: "Send mb r ctx src dst (startWorld s t) = (w', Inr res)"
  from Send_accounted [OF accounted_start run]
  show "SrcSendError res = concat (map error_of (callsTo ToSrc (trace w')))"
    and "SuccessfulSrcBatches res = of_nat (length (filter success_of (callsTo ToSrc (trace w'))))"
    and "DstSendError res = concat (map error_of (callsTo ToDst (trace w')))"
    and "SuccessfulDstBatches res = of_nat (length (filter success_of (callsTo ToDst (trace w'))))"
    by (simp_all add: accounted_def)
qed

theorem Send_calls_fixed_answers_recorded_witness:
  "map call_of (trace (fst (Send exBytes exB True exSender exSender (startWorld 0 0)))) =
     [(ToSrc, [1]), (ToSrc, [2]), (ToDst, [3])] \<and>
   panic_of (Send exBytes exB True exSender exSender (startWorld 0 0)) = None \<and>
   replay True exSender exSender
     [(ToSrc, [1], None, False, [''context canceled'']),
      (ToSrc, [2], None, False, [''context canceled'']),
      (ToDst, [3], None, False, [''context canceled''])] (0, 0) = Some (0, 0) \<and>
   snd (Send exBytes exB True exSender exSender (startWorld 0 0)) =
     Inr \<lparr>SuccessfulSrcBatches = 0, SuccessfulDstBatches = 0,
          SrcSendError = [''context canceled'', ''context canceled''],
          DstSendError = [''context canceled'']\<rparr> \<and>
   concat (map error_of (callsTo ToSrc
     [(ToSrc, [1 :: nat], None :: unit option, False, [''context canceled'']),
      (ToSrc, [2], None, False, [''context canceled'']),
      (ToDst, [3], None, False, [''context canceled''])])) =
     [''context canceled'', ''context canceled'']"
proof -
  have "Send exBytes exB False exSender exDown (startWorld 0 ()) =
     (\<lparr>trace = [(ToSrc, [1], Some (), True, []), (ToSrc, [2], None, False, [''timeout'']),
                (ToDst, [3], None, False, [''connection refused''])],
        srcChain = 2, dstChain = ()\<rparr>,
      Inr \<lparr>SuccessfulSrcBatches = 1, SuccessfulDstBatches = 0,
           SrcSendError = [''timeout''], DstSendError = [''connection refused'']\<rparr>)"
    by (simp add: ex_simps)
  with Send_calls_fixed_answers_recorded [of exBytes exB True exSender exSender 0 0 False exSender exDown 0 "()"
      "fst (Send exBytes exB True exSender exSender (startWorld 0 0))"
      "projr (snd (Send exBytes exB True exSender exSender (startWorld 0 0)))"]
    run_exB_cancelled
  show ?thesis
    by (simp add: panic_of_def call_of_def target_of_def batch_of_def)
qed



text \<open>
  Claim C6. With a positive \<open>MaxMsgLength\<close>, every batch Send submits holds at most
  \<open>MaxMsgLength\<close> messages. (The claim allows for one exception, a batch of a single
  message that is by itself over the limit; one message is within any positive count, so
  the bound holds for that batch too.) The sequences are Go slices, whose lengths fit a
  Go \<open>int\<close>; without that the counter \<open>msgLen\<close> could wrap.
\<close>

theorem Send_batch_count_bound:
  assumes "MaxMsgLength r \<noteq> 0" and "length (Src r) < 2 ^ 63" and "length (Dst r) < 2 ^ 63"
  shows "list_all (\<lambda>ev. length (batch_of ev) \<le> unat (MaxMsgLength r))
           (trace (fst (Send mb r ctx src dst (startWorld s t))))"
proof -
  let ?tr = "trace (fst (Send mb r ctx src dst (startWorld s t)))"
  have "map batch_of ?tr = map snd (map call_of ?tr)"
    by (simp add: call_of_def comp_def)
  also have "\<dots> = map snd (plan mb r)"
    by (simp add: Send_calls startWorld_def)
  finally have "set (map batch_of ?tr) \<subseteq>
      set (fst (batchesOf mb r (Src r))) \<union> set (fst (batchesOf mb r (Dst r)))"
    by (auto simp: plan_batches split: option.splits)
  with batchesOf_bound [OF assms(1,2), of mb] batchesOf_bound [OF assms(1,3), of mb]
  have "\<forall>b\<in>set (map batch_of ?tr). length b \<le> unat (MaxMsgLength r)"
    by blast
  then show ?thesis
    by (simp add: list_all_iff)
qed

theorem Send_batch_count_bound_witness:
  "MaxMsgLength exB \<noteq> 0 \<and> length (Src exB) < 2 ^ 63 \<and> length (Dst exB) < 2 ^ 63 \<and>
   unat (MaxMsgLength exB) = 1 \<and>
   list_all (\<lambda>ev. length (batch_of ev) \<le> 1)
     (trace (fst (Send exBytes exB False exSender exSender (startWorld 0 0))))"
proof -
  have h: "MaxMsgLength exB \<noteq> 0" "length (Src exB) < 2 ^ 63" "length (Dst exB) < 2 ^ 63"
    by (simp_all add: exB_def)
  have u: "unat (MaxMsgLength exB) = 1"
    by (simp add: exB_def)
  from Send_batch_count_bound [OF h, of exBytes False exSender exSender 0 0] h u show ?thesis
    by simp
qed

text \<open>
  Claim C7. Send makes all its calls to the source sender before any call to the
  destination sender, and what happens on the destination side does not depend on the
  source sender: for the same container, context and destination sender, started on the
  same destination chain, two runs with any two source senders make the same calls to the
  destination sender, get the same answers, and end with the same
  \<open>SuccessfulDstBatches\<close> and \<open>DstSendError\<close>. A source sender that fails every
  call does not keep the destination run from happening.
\<close>

theorem Send_destination_independent_of_source:
  "dstSide (Send mb r ctx src dst (startWorld s t)) =
   dstSide (Send mb r ctx src' dst (startWorld s' t)) \<and>
   trace (fst (Send mb r ctx src dst (startWorld s t))) =
     callsTo ToSrc (trace (fst (Send mb r ctx src dst (startWorld s t)))) @
     callsTo ToDst (trace (fst (Send mb r ctx src dst (startWorld s t))))"
  using Send_dstSide [of mb r ctx src dst s t src' s'] Send_src_then_dst [of mb r ctx src dst s t]
  by simp

theorem Send_destination_independent_of_source_witness:
  "dstSide (Send exBytes exA False exDown exSender (startWorld () 0)) =
     ([(ToDst, [3], Some (), True, [])], 1, Inr (1, [])) \<and>
   trace (fst (Send exBytes exA False exDown exSender (startWorld () 0))) =
     [(ToSrc, [10, 10], None, False, [''connection refused'']),
      (ToSrc, [10], None, False, [''connection refused''])] @ [(ToDst, [3], Some (), True, [])]"
proof -
  from Send_destination_independent_of_source [of exBytes exA False exDown exSender "()" 0 exSender 0]
    run_exA
  have "dstSide (Send exBytes exA False exDown exSender (startWorld () 0)) =
     ([(ToDst, [3], Some (), True, [])], 1, Inr (1, []))"
    by (simp add: dstSide_def callsTo_def target_of_def)
  moreover have "trace (fst (Send exBytes exA False exDown exSender (startWorld () 0))) =
     [(ToSrc, [10, 10], None, False, [''connection refused'']),
      (ToSrc, [10], None, False, [''connection refused''])] @ [(ToDst, [3], Some (), True, [])]"
    by (simp add: ex_simps)
  ultimately show ?thesis by simp
qed

text \<open>
  Claim C8. When a message fails to serialise, Send stops there with a panic that carries
  the error: it returns no result, and it makes no call after the failure. Let \<open>m\<close>
  be the first message that fails, in \<open>Src\<close>, or in \<open>Dst\<close> when all of \<open>Src\<close>
  serialises, and \<open>pre\<close> the messages before it. A run on the container cut off just
  before \<open>m\<close> makes the calls of the loop over \<open>pre\<close> and then, when \<open>pre\<close> has
  a non-nil message, one last call, the leftover submission of the messages still pending.
  The calls of the failing run are exactly those without that last call: the pending
  messages are not submitted, and what comes after \<open>m\<close> plays no part.
\<close>

theorem Send_serialization_failure_aborts:
  assumes "mb m = Inl err" and "allOK mb pre"
    and "(Src r = pre @ Some m # post \<and> r' = r\<lparr>Src := pre, Dst := []\<rparr>) \<or>
         (allOK mb (Src r) \<and> Dst r = pre @ Some m # post \<and> r' = r\<lparr>Dst := pre\<rparr>)"
  shows "snd (Send mb r ctx src dst w) = Inl (Raised err) \<and>
         trace (fst (Send mb r ctx src dst w)) =
           (if nonNil pre = [] then trace (fst (Send mb r' ctx src dst w))
            else butlast (trace (fst (Send mb r' ctx src dst w))))"
  using assms(3)
proof (elim disjE conjE)
  assume src: "Src r = pre @ Some m # post" and r': "r' = r\<lparr>Src := pre, Dst := []\<rparr>"
  let ?bs = "fst (flushed mb r pre (0, 0, []))"
  let ?pend = "snd (snd (projr (snd (flushed mb r pre (0, 0, [])))))"
  let ?st = "submitAll (sendSrc src ctx) ?bs (w, zeroResult)"
  from batchesOf_fail [OF assms(2,1), of r post] src
  have fail: "batchesOf mb r (Src r) = (?bs, Some (Raised err))" by simp
  have lim: "batchesOf mb r' xs = batchesOf mb r xs" for xs
    by (rule batchesOf_limits) (simp_all add: r')
  from r' have "Src r' = pre" by simp
  with lim batchesOf_leftover [OF assms(2), of r]
  have ok: "batchesOf mb r' (Src r') = (?bs @ (if nonNil pre = [] then [] else [?pend]), None)"
    by simp
  have nil: "batchesOf mb r' (Dst r') = ([], None)"
    by (simp add: r' batchesOf_def)
  from fail have run: "Send mb r ctx src dst w = (fst ?st, Inl (Raised err))"
    by (simp add: Send_batches)
  from ok nil have ref: "fst (Send mb r' ctx src dst w) =
      fst (submitAll (sendSrc src ctx) (if nonNil pre = [] then [] else [?pend]) ?st)"
    by (simp add: Send_batches submitAll_append submitAll_Nil)
  from run ref show ?thesis
    by (simp add: submitAll_Nil submitAll_Cons sendSrc_butlast)
next
  assume srcok: "allOK mb (Src r)" and dst: "Dst r = pre @ Some m # post"
    and r': "r' = r\<lparr>Dst := pre\<rparr>"
  let ?cs = "fst (flushed mb r pre (0, 0, []))"
  let ?pend = "snd (snd (projr (snd (flushed mb r pre (0, 0, [])))))"
  from batchesOf_ok [OF srcok, of r] obtain bs
    where bs: "batchesOf mb r (Src r) = (bs, None)" by blast
  let ?st = "submitAll (sendDst dst ctx) ?cs (submitAll (sendSrc src ctx) bs (w, zeroResult))"
  from batchesOf_fail [OF assms(2,1), of r post] dst
  have fail: "batchesOf mb r (Dst r) = (?cs, Some (Raised err))" by simp
  have lim: "batchesOf mb r' xs = batchesOf mb r xs" for xs
    by (rule batchesOf_limits) (simp_all add: r')
  from r' have "Dst r' = pre" by simp
  with lim batchesOf_leftover [OF assms(2), of r]
  have ok: "batchesOf mb r' (Dst r') = (?cs @ (if nonNil pre = [] then [] else [?pend]), None)"
    by simp
  from r' have "Src r' = Src r" by simp
  with bs lim have bs': "batchesOf mb r' (Src r') = (bs, None)"
    by simp
  from bs fail have run: "Send mb r ctx src dst w = (fst ?st, Inl (Raised err))"
    by (simp add: Send_batches)
  from bs' ok have ref: "fst (Send mb r' ctx src dst w) =
      fst (submitAll (sendDst dst ctx) (if nonNil pre = [] then [] else [?pend]) ?st)"
    by (simp add: Send_batches submitAll_append)
  from run ref show ?thesis
    by (simp add: submitAll_Nil submitAll_Cons sendDst_butlast)
qed

theorem Send_serialization_failure_aborts_witness:
  "snd (Send exBytes exC False exSender exSender (startWorld 0 0)) = Inl (Raised ''malformed'') \<and>
   trace (fst (Send exBytes exC False exSender exSender (startWorld 0 0))) =
     [(ToSrc, [2], Some (), True, [])] \<and>
   trace (fst (Send exBytes (exC\<lparr>Src := [Some 2, Some 3], Dst := []\<rparr>) False exSender exSender
     (startWorld 0 0))) = [(ToSrc, [2], Some (), True, []), (ToSrc, [3], None, False, [''timeout''])] \<and>
   snd (Send exBytes exE False exSender exSender (startWorld 0 0)) = Inl (Raised ''malformed'') \<and>
   trace (fst (Send exBytes exE False exSender exSender (startWorld 0 0))) =
     [(ToSrc, [1], Some (), True, []), (ToDst, [2], Some (), True, [])] \<and>
   trace (fst (Send exBytes (exE\<lparr>Dst := [Some 2, Some 3]\<rparr>) False exSender exSender
     (startWorld 0 0))) =
     [(ToSrc, [1], Some (), True, []), (ToDst, [2], Some (), True, []),
      (ToDst, [3], None, False, [''timeout''])]"
proof -
  have f: "exBytes 0 = Inl ''malformed''" and ok: "allOK exBytes [Some 2, Some 3]"
    and ok1: "allOK exBytes (Src exE)"
    by (simp_all add: exBytes_def allOK_def exE_def)
  have c: "Src exC = [Some 2, Some 3] @ Some 0 # [Some 4]"
    and e: "Dst exE = [Some 2, Some 3] @ Some 0 # [Some 4]"
    by (simp_all add: exC_def exE_def)
  have 4: "trace (fst (Send exBytes (exC\<lparr>Src := [Some 2, Some 3], Dst := []\<rparr>) False exSender exSender
     (startWorld 0 0))) = [(ToSrc, [2], Some (), True, []), (ToSrc, [3], None, False, [''timeout''])]"
    by (simp add: ex_simps)
  have 5: "trace (fst (Send exBytes (exE\<lparr>Dst := [Some 2, Some 3]\<rparr>) False exSender exSender
     (startWorld 0 0))) =
     [(ToSrc, [1], Some (), True, []), (ToDst, [2], Some (), True, []),
      (ToDst, [3], None, False, [''timeout''])]"
    by (simp add: ex_simps)
  from Send_serialization_failure_aborts [OF f ok, of exC "[Some 4]" "exC\<lparr>Src := [Some 2, Some 3], Dst := []\<rparr>"
      False exSender exSender "startWorld 0 0"] c 4
  have 1: "snd (Send exBytes exC False exSender exSender (startWorld 0 0)) = Inl (Raised ''malformed'') \<and>
     trace (fst (Send exBytes exC False exSender exSender (startWorld 0 0))) =
       [(ToSrc, [2], Some (), True, [])]"
    by simp
  from Send_serialization_failure_aborts [OF f ok, of exE "[Some 4]" "exE\<lparr>Dst := [Some 2, Some 3]\<rparr>"
      False exSender exSender "startWorld 0 0"] e ok1 5
  have 2: "snd (Send exBytes exE False exSender exSender (startWorld 0 0)) = Inl (Raised ''malformed'') \<and>
     trace (fst (Send exBytes exE False exSender exSender (startWorld 0 0))) =
       [(ToSrc, [1], Some (), True, []), (ToDst, [2], Some (), True, [])]"
    by simp
  from 1 2 4 5 show ?thesis by simp
qed

end
